theory Spec2Isabelle
  imports Main "HOL-Library.Multiset"
begin

section \<open>The streak calculator of the habit tracker\<close>

text \<open>
  This theory embeds \<^verbatim>\<open>calculate_streak\<close> of \<^verbatim>\<open>app.py\<close> (lines 42 to 112) and
  the parts of the Python library it calls: \<^verbatim>\<open>str.split\<close>,
  \<^verbatim>\<open>datetime.strptime\<close> with the format \<^verbatim>\<open>%Y-%m-%d\<close>, the arithmetic of
  \<^verbatim>\<open>datetime.date\<close>, \<^verbatim>\<open>collections.defaultdict\<close> and \<^verbatim>\<open>date.today\<close>.
\<close>

subsection \<open>Data\<close>

text \<open>
  A \<^verbatim>\<open>datetime.date\<close> is represented by its proleptic Gregorian ordinal
  (\<^verbatim>\<open>date.toordinal()\<close>: 0001-01-01 is day 1). Comparison of dates is comparison of
  ordinals, \<^verbatim>\<open>(a - b).days\<close> is their difference.
\<close>

type_synonym date = int

text \<open>The exceptions that the function can let escape.\<close>

datatype error = ValueError | IndexError | OverflowError

text \<open>
  An entry is a row of the table \<^verbatim>\<open>entries\<close>: the function reads its keys
  \<^verbatim>\<open>'date'\<close> (a string) and \<^verbatim>\<open>'success'\<close> (an integer, 0 for a failure).
\<close>

record entry =
  date :: string
  success :: int

text \<open>
  \<^verbatim>\<open>date.today()\<close> reads the system clock. The function calls it several times; the
  clock is the sequence of dates that the successive calls return.
\<close>

type_synonym clock = "nat \<Rightarrow> date"

subsection \<open>Python library: splitting and parsing a date string\<close>

text \<open>
  A \<open>char\<close> is a code point below 256, so the strings of the model are the Python
  strings over these code points. \<^verbatim>\<open>str.isspace\<close> holds there for tab to carriage
  return, the separators 28 to 31, space, NEL and the no-break space; the digits that
  \<^verbatim>\<open>\d\<close> matches are \<^verbatim>\<open>0\<close> to \<^verbatim>\<open>9\<close>.
\<close>

definition is_space :: "char \<Rightarrow> bool" where
  "is_space c =
     (let n = (of_char c :: nat)
      in (9 \<le> n \<and> n \<le> 13) \<or> (28 \<le> n \<and> n \<le> 32) \<or> n = 133 \<or> n = 160)"

text \<open>
  \<^verbatim>\<open>s.split()\<close>: the maximal runs of characters that are not white space.
  \<open>cur\<close> holds the run being read, reversed.
\<close>

fun split_ws :: "string \<Rightarrow> string \<Rightarrow> string list" where
  "split_ws cur [] = (if cur = [] then [] else [rev cur])"
| "split_ws cur (c # cs) =
     (if is_space c
      then (if cur = [] then split_ws [] cs else rev cur # split_ws [] cs)
      else split_ws (c # cur) cs)"

definition is_digit :: "char \<Rightarrow> bool" where
  "is_digit c = (48 \<le> (of_char c :: nat) \<and> (of_char c :: nat) \<le> 57)"

definition digit_val :: "char \<Rightarrow> int" where
  "digit_val c = of_char c - 48"

text \<open>
  The directive \<^verbatim>\<open>%m\<close> is the regular expression \<^verbatim>\<open>1[0-2]|0[1-9]|[1-9]\<close>; in the
  format it stands between two hyphens, so it has to match a whole field.
\<close>

fun match_month :: "string \<Rightarrow> int option" where
  "match_month [a, b] =
     (if a = CHR ''1'' \<and> (b = CHR ''0'' \<or> b = CHR ''1'' \<or> b = CHR ''2'')
      then Some (10 + digit_val b)
      else if a = CHR ''0'' \<and> is_digit b \<and> b \<noteq> CHR ''0'' then Some (digit_val b)
      else None)"
| "match_month [a] = (if is_digit a \<and> a \<noteq> CHR ''0'' then Some (digit_val a) else None)"
| "match_month _ = None"

text \<open>
  The directive \<^verbatim>\<open>%d\<close> is \<^verbatim>\<open>3[0-1]|[1-2]\d|0[1-9]|[1-9]| [1-9]\<close>; it ends the
  format, and \<^verbatim>\<open>strptime\<close> rejects a string with characters left after the match,
  so it has to match the whole rest.
\<close>

fun match_day :: "string \<Rightarrow> int option" where
  "match_day [a, b] =
     (if a = CHR ''3'' \<and> (b = CHR ''0'' \<or> b = CHR ''1'') then Some (30 + digit_val b)
      else if (a = CHR ''1'' \<or> a = CHR ''2'') \<and> is_digit b
      then Some (10 * digit_val a + digit_val b)
      else if a = CHR ''0'' \<and> is_digit b \<and> b \<noteq> CHR ''0'' then Some (digit_val b)
      else if a = CHR '' '' \<and> is_digit b \<and> b \<noteq> CHR ''0'' then Some (digit_val b)
      else None)"
| "match_day [a] = (if is_digit a \<and> a \<noteq> CHR ''0'' then Some (digit_val a) else None)"
| "match_day _ = None"

text \<open>
  Matching \<^verbatim>\<open>(\d\d\d\d)-(%m)-(%d)\<close> against the whole string: four digits, a hyphen,
  the month up to the next hyphen, the day after it. The result is year, month, day.
\<close>

fun match_ymd :: "string \<Rightarrow> (int \<times> int \<times> int) option" where
  "match_ymd (y1 # y2 # y3 # y4 # h # rest) =
     (if is_digit y1 \<and> is_digit y2 \<and> is_digit y3 \<and> is_digit y4 \<and> h = CHR ''-''
      then
        (case dropWhile (\<lambda>c. c \<noteq> CHR ''-'') rest of
           [] \<Rightarrow> None
         | _ # ds \<Rightarrow>
             (case match_month (takeWhile (\<lambda>c. c \<noteq> CHR ''-'') rest) of
                None \<Rightarrow> None
              | Some m \<Rightarrow>
                  (case match_day ds of
                     None \<Rightarrow> None
                   | Some d \<Rightarrow>
                       Some (1000 * digit_val y1 + 100 * digit_val y2
                             + 10 * digit_val y3 + digit_val y4, m, d))))
      else None)"
| "match_ymd _ = None"

subsection \<open>Python library: calendar arithmetic\<close>

definition is_leap :: "int \<Rightarrow> bool" where
  "is_leap y = (y mod 4 = 0 \<and> (y mod 100 \<noteq> 0 \<or> y mod 400 = 0))"

definition days_in_month :: "int \<Rightarrow> int \<Rightarrow> int" where
  "days_in_month y m =
     (if m = 2 then (if is_leap y then 29 else 28)
      else if m = 4 \<or> m = 6 \<or> m = 9 \<or> m = 11 then 30 else 31)"

definition days_before_year :: "int \<Rightarrow> int" where
  "days_before_year y =
     (let p = y - 1 in p * 365 + p div 4 - p div 100 + p div 400)"

definition days_before_month :: "int \<Rightarrow> int \<Rightarrow> int" where
  "days_before_month y m =
     ([0, 31, 59, 90, 120, 151, 181, 212, 243, 273, 304, 334] ! nat (m - 1))
     + (if 2 < m \<and> is_leap y then 1 else 0)"

definition ymd2ord :: "int \<Rightarrow> int \<Rightarrow> int \<Rightarrow> date" where
  "ymd2ord y m d = days_before_year y + days_before_month y m + d"

text \<open>
  \<^verbatim>\<open>datetime.strptime(s, "%Y-%m-%d").date()\<close>: ValueError when the string does not
  match the format, when the year is 0 and when the month has no such day.
\<close>

definition strptime_date :: "string \<Rightarrow> error + date" where
  "strptime_date s =
     (case match_ymd s of
        None \<Rightarrow> Inl ValueError
      | Some (y, m, d) \<Rightarrow>
          if 1 \<le> y \<and> y \<le> 9999 \<and> 1 \<le> m \<and> m \<le> 12 \<and> 1 \<le> d \<and> d \<le> days_in_month y m
          then Inr (ymd2ord y m d)
          else Inl ValueError)"

text \<open>
  Line 55: \<^verbatim>\<open>datetime.strptime(e['date'].split()[0], "%Y-%m-%d").date()\<close>. The index 0
  raises IndexError when the string has no token.
\<close>

definition entry_date :: "entry \<Rightarrow> error + date" where
  "entry_date e =
     (case split_ws [] (date e) of
        [] \<Rightarrow> Inl IndexError
      | tok # _ \<Rightarrow> strptime_date tok)"

subsection \<open>The function\<close>

text \<open>
  Lines 50 to 60: the loop over the entries. \<open>day_status\<close> is the dictionary (only
  failures are stored in it here), \<open>all_entry_dates\<close> the set of the dates seen.
\<close>

fun build_status ::
  "entry list \<Rightarrow> (date \<rightharpoonup> bool) \<Rightarrow> date set
     \<Rightarrow> error + ((date \<rightharpoonup> bool) \<times> date set)" where
  "build_status [] day_status all_entry_dates = Inr (day_status, all_entry_dates)"
| "build_status (e # es) day_status all_entry_dates =
     (case entry_date e of
        Inl err \<Rightarrow> Inl err
      | Inr date_obj \<Rightarrow>
          build_status es
            (if success e = 0 then day_status(date_obj \<mapsto> False) else day_status)
            (insert date_obj all_entry_dates))"

text \<open>
  \<^verbatim>\<open>day_status[day]\<close> on \<^verbatim>\<open>defaultdict(lambda: True)\<close>: a missing key is stored
  with the value True, and that value is returned.
\<close>

definition dd_get :: "(date \<rightharpoonup> bool) \<Rightarrow> date \<Rightarrow> bool \<times> (date \<rightharpoonup> bool)" where
  "dd_get day_status day =
     (case day_status day of
        Some b \<Rightarrow> (b, day_status)
      | None \<Rightarrow> (True, day_status(day \<mapsto> True)))"

text \<open>The status that the expression \<^verbatim>\<open>day_status[day]\<close> reads.\<close>

definition status_of :: "(date \<rightharpoonup> bool) \<Rightarrow> date \<Rightarrow> bool" where
  "status_of ds day = fst (dd_get ds day)"

text \<open>Lines 67 to 83: the variables of the loop over \<open>sorted_days\<close>, and its body.\<close>

record pass_state =
  day_status :: "date \<rightharpoonup> bool"
  longest_streak :: int
  current_longest :: int
  prev_day :: "date option"

definition longest_step :: "pass_state \<Rightarrow> date \<Rightarrow> pass_state" where
  "longest_step s day =
     (case dd_get (day_status s) day of
        (ok, ds) \<Rightarrow>
          if ok
          then
            (let cl = (if (case prev_day s of None \<Rightarrow> False | Some p \<Rightarrow> day - p = 1)
                       then current_longest s + 1 else 1)
             in \<lparr>day_status = ds, longest_streak = max (longest_streak s) cl,
                 current_longest = cl, prev_day = Some day\<rparr>)
          else \<lparr>day_status = ds, longest_streak = longest_streak s,
                current_longest = 0, prev_day = Some day\<rparr>)"

text \<open>Lines 67 to 69: the variables before the loop.\<close>

abbreviation pass_init :: "(date \<rightharpoonup> bool) \<Rightarrow> pass_state" where
  "pass_init ds \<equiv>
     \<lparr>day_status = ds, longest_streak = 0, current_longest = 0, prev_day = None\<rparr>"

fun longest_pass :: "date list \<Rightarrow> pass_state \<Rightarrow> pass_state" where
  "longest_pass [] s = s"
| "longest_pass (day # days) s = longest_pass days (longest_step s day)"

text \<open>
  Lines 90 to 110: the loop \<^verbatim>\<open>for _ in range(n)\<close> of the current streak, with
  \<open>n\<close> iterations left, \<open>k\<close> the number of clock reads made so far,
  \<open>day_to_check\<close> and \<open>current_streak\<close> the loop's variables. The subtraction of
  a day raises OverflowError below 0001-01-01.
\<close>

fun current_scan ::
  "nat \<Rightarrow> (date \<rightharpoonup> bool) \<Rightarrow> date list \<Rightarrow> clock \<Rightarrow> nat \<Rightarrow> date \<Rightarrow> int
     \<Rightarrow> error + int" where
  "current_scan 0 ds sorted_days clk k day_to_check current_streak = Inr current_streak"
| "current_scan (Suc n) ds sorted_days clk k day_to_check current_streak =
     (case ds day_to_check of
        Some ok \<Rightarrow>
          if ok
          then
            (if (case sorted_days of [] \<Rightarrow> False | first # _ \<Rightarrow> day_to_check \<le> first)
             then Inr (current_streak + 1)
             else if day_to_check - 1 < 1 then Inl OverflowError
             else current_scan n ds sorted_days clk k (day_to_check - 1) (current_streak + 1))
          else Inr 0
      | None \<Rightarrow>
          if day_to_check < clk k then Inr current_streak
          else if day_to_check = clk (Suc k) then Inr current_streak
          else if (case sorted_days of [] \<Rightarrow> False | first # _ \<Rightarrow> day_to_check \<le> first)
          then Inr current_streak
          else if day_to_check - 1 < 1 then Inl OverflowError
          else current_scan n ds sorted_days clk (Suc (Suc k)) (day_to_check - 1) current_streak)"

text \<open>
  The whole function. The clock is read first at line 87 (read 0); the scan goes on
  from read 1.
\<close>

definition calculate_streak :: "entry list \<Rightarrow> clock \<Rightarrow> error + (int \<times> int)" where
  "calculate_streak entries clk =
     (if entries = [] then Inr (0, 0)
      else
        (case build_status entries Map.empty {} of
           Inl err \<Rightarrow> Inl err
         | Inr (status, all_entry_dates) \<Rightarrow>
             (let sorted_days = sorted_list_of_set all_entry_dates
              in if sorted_days = [] then Inr (0, 0)
                 else
                   (let s = longest_pass sorted_days (pass_init status)
                    in case current_scan 365 (day_status s) sorted_days clk 1 (clk 0) 0 of
                         Inl err \<Rightarrow> Inl err
                       | Inr current_streak \<Rightarrow> Inr (current_streak, longest_streak s)))))"

subsection \<open>Vocabulary of the properties\<close>

text \<open>An entry whose date string the function can parse.\<close>

definition parses :: "entry \<Rightarrow> bool" where
  "parses e = (case entry_date e of Inl _ \<Rightarrow> False | Inr _ \<Rightarrow> True)"

text \<open>The dates of the entries, and the dates with an entry that reports a failure.\<close>

definition entry_dates :: "entry list \<Rightarrow> date set" where
  "entry_dates es = {d. \<exists>e\<in>set es. entry_date e = Inr d}"

definition fails_on :: "entry list \<Rightarrow> date \<Rightarrow> bool" where
  "fails_on es d = (\<exists>e\<in>set es. entry_date e = Inr d \<and> success e = 0)"

text \<open>
  A history longer than a year: one entry, a success, for each of the 366 days of
  2024, from \<^verbatim>\<open>2024-01-01\<close> to \<^verbatim>\<open>2024-12-31\<close> in this order. \<open>two_digits\<close>
  writes a number below 100 with two decimal digits.
\<close>

definition two_digits :: "nat \<Rightarrow> string" where
  "two_digits n = [char_of (48 + n div 10), char_of (48 + n mod 10)]"

definition month_2024 :: "nat \<Rightarrow> nat \<Rightarrow> entry list" where
  "month_2024 m n =
     map (\<lambda>d. \<lparr>date = ''2024-'' @ two_digits m @ ''-'' @ two_digits d, success = 1\<rparr>)
       [1..<Suc n]"

definition year_2024 :: "entry list" where
  "year_2024 =
     concat (map (\<lambda>(m, n). month_2024 m n)
       [(1, 31), (2, 29), (3, 31), (4, 30), (5, 31), (6, 30),
        (7, 31), (8, 31), (9, 30), (10, 31), (11, 30), (12, 31)])"

text \<open>The dictionary after the loop over entries that all parse.\<close>

abbreviation failures :: "entry list \<Rightarrow> (date \<rightharpoonup> bool)" where
  "failures es \<equiv> (\<lambda>d. if fails_on es d then Some False else None)"

section \<open>Auxiliary lemmas\<close>

lemmas parse_defs = entry_date_def strptime_date_def is_space_def is_digit_def digit_val_def
  is_leap_def days_in_month_def days_before_year_def days_before_month_def ymd2ord_def

lemma parses_iff: "parses e = (\<exists>d. entry_date e = Inr d)"
  by (simp add: parses_def split: sum.splits)

lemma build_status_ok:
  "list_all parses es \<Longrightarrow>
   build_status es ds S =
     Inr ((\<lambda>d. if fails_on es d then Some False else ds d), S \<union> entry_dates es)"
proof (induction es arbitrary: ds S)
  case Nil
  then show ?case by (simp add: fails_on_def entry_dates_def)
next
  case (Cons e es)
  from Cons.prems have pe: "parses e" and rest: "list_all parses es"
    by simp_all
  from pe obtain d0 where d0: "entry_date e = Inr d0"
    unfolding parses_iff by blast
  have f: "fails_on (e # es) d = ((d = d0 \<and> success e = 0) \<or> fails_on es d)" for d
    using d0 by (auto simp: fails_on_def)
  have s: "entry_dates (e # es) = insert d0 (entry_dates es)"
    using d0 by (auto simp: entry_dates_def)
  show ?case
    by (simp add: d0 Cons.IH [OF rest] f s fun_eq_iff)
qed

lemma build_status_error:
  "build_status es ds S = Inl err \<Longrightarrow> \<exists>e\<in>set es. entry_date e = Inl err"
  by (induction es arbitrary: ds S) (auto split: sum.splits)

lemma build_status_parses:
  "build_status es ds S = Inr r \<Longrightarrow> list_all parses es"
  by (induction es arbitrary: ds S) (auto split: sum.splits simp: parses_iff)

lemma entry_date_error: "entry_date e = Inl err \<Longrightarrow> err = ValueError \<or> err = IndexError"
  by (auto simp: entry_date_def strptime_date_def split: list.splits option.splits prod.splits if_splits)

lemma status_of_simp: "status_of ds d = (ds d \<noteq> Some False)"
  by (cases "ds d") (auto simp: status_of_def dd_get_def)

lemma step_day_status:
  "day_status (longest_step s day) = (day_status s)(day \<mapsto> status_of (day_status s) day)"
  by (cases "day_status s day")
     (auto simp: longest_step_def dd_get_def status_of_def Let_def fun_eq_iff)

lemma step_prev_day: "prev_day (longest_step s day) = Some day"
  by (simp add: longest_step_def Let_def split: prod.splits)

lemma step_current_longest:
  "current_longest (longest_step s day) =
     (if status_of (day_status s) day
      then (if prev_day s = Some (day - 1) then current_longest s + 1 else 1)
      else 0)"
  by (cases "prev_day s")
     (auto simp: longest_step_def status_of_def Let_def split: prod.splits)

lemma step_longest_streak:
  "longest_streak (longest_step s day) =
     (if status_of (day_status s) day
      then max (longest_streak s) (current_longest (longest_step s day))
      else longest_streak s)"
  by (cases "prev_day s")
     (auto simp: longest_step_def status_of_def Let_def split: prod.splits)

lemma step_status_of:
  "status_of (day_status (longest_step s day)) d = status_of (day_status s) d"
  by (simp add: step_day_status status_of_simp)

lemma longest_pass_append:
  "longest_pass (xs @ ys) s = longest_pass ys (longest_pass xs s)"
  by (induction xs arbitrary: s) simp_all

lemma longest_pass_status_of:
  "status_of (day_status (longest_pass xs s)) d = status_of (day_status s) d"
  by (induction xs arbitrary: s) (simp_all add: step_status_of)

lemma longest_pass_day_status:
  "day_status (longest_pass xs s) d =
     (if d \<in> set xs then Some (status_of (day_status s) d) else day_status s d)"
proof (induction xs arbitrary: s)
  case Nil
  show ?case by simp
next
  case (Cons x xs)
  show ?case
    by (simp add: Cons.IH step_day_status status_of_simp)
qed

lemma longest_pass_snoc:
  "longest_pass (xs @ [x]) s = longest_step (longest_pass xs s) x"
  by (simp add: longest_pass_append)

lemma sorted_le_last: "sorted (xs :: int list) \<Longrightarrow> y \<in> set xs \<Longrightarrow> y \<le> last xs"
  by (induction xs) auto

lemma longest_pass_inv:
  fixes xs :: "int list"
  assumes "sorted xs" and "distinct xs"
  shows "0 \<le> current_longest (longest_pass xs (pass_init ds))
       \<and> current_longest (longest_pass xs (pass_init ds))
           \<le> longest_streak (longest_pass xs (pass_init ds))
       \<and> longest_streak (longest_pass xs (pass_init ds)) \<le> int (length xs)
       \<and> prev_day (longest_pass xs (pass_init ds)) = (if xs = [] then None else Some (last xs))
       \<and> (\<forall>a. xs \<noteq> [] \<and> a \<le> last xs
               \<and> (\<forall>d. a \<le> d \<and> d \<le> last xs \<longrightarrow> d \<in> set xs \<and> status_of ds d)
              \<longrightarrow> last xs - a + 1 \<le> current_longest (longest_pass xs (pass_init ds)))
       \<and> (\<forall>a b. a \<le> b
               \<and> (\<forall>d. a \<le> d \<and> d \<le> b \<longrightarrow> d \<in> set xs \<and> status_of ds d)
              \<longrightarrow> b - a + 1 \<le> longest_streak (longest_pass xs (pass_init ds)))"
  using assms
proof (induction xs rule: rev_induct)
  case Nil
  show ?case by auto
next
  case (snoc x xs)
  let ?s = "longest_pass xs (pass_init ds)"
  let ?t = "longest_step ?s x"
  have sx: "sorted xs" and dx: "distinct xs" and xn: "x \<notin> set xs"
    and le: "\<And>y. y \<in> set xs \<Longrightarrow> y < x"
    using snoc.prems by (auto simp: sorted_append order_less_le)
  note IH = snoc.IH [OF sx dx]
  note ih0 = IH [THEN conjunct1]
  note ih1 = IH [THEN conjunct2, THEN conjunct1]
  note ih2 = IH [THEN conjunct2, THEN conjunct2, THEN conjunct1]
  note ih3 = IH [THEN conjunct2, THEN conjunct2, THEN conjunct2, THEN conjunct1]
  note ih4 = IH [THEN conjunct2, THEN conjunct2, THEN conjunct2, THEN conjunct2, THEN conjunct1, rule_format]
  note ih5 = IH [THEN conjunct2, THEN conjunct2, THEN conjunct2, THEN conjunct2, THEN conjunct2, rule_format]
  have st: "status_of (day_status ?s) d = status_of ds d" for d
    by (simp add: longest_pass_status_of)
  have c0: "0 \<le> current_longest ?t"
    using ih0 by (simp add: step_current_longest)
  have cl: "current_longest ?t \<le> longest_streak ?t"
    using ih0 ih1 c0 by (simp add: step_longest_streak) (simp add: step_current_longest)
  have ll: "longest_streak ?t \<le> int (length (xs @ [x]))"
    using ih0 ih1 ih2 by (simp add: step_longest_streak step_current_longest)
  have pv: "prev_day ?t = Some x" by (simp add: step_prev_day)
  have run: "x - a + 1 \<le> current_longest ?t"
    if a: "a \<le> x"
      and all: "\<And>d. a \<le> d \<Longrightarrow> d \<le> x \<Longrightarrow> d \<in> set (xs @ [x]) \<and> status_of ds d"
    for a
  proof (cases "a = x")
    case True
    have "status_of ds x" using all [of x] a by simp
    then show ?thesis using True ih0 by (simp add: step_current_longest st)
  next
    case False
    then have ax: "a \<le> x - 1" using a by simp
    have ok: "status_of ds x" using all [of x] a by simp
    have mem: "x - 1 \<in> set xs" using all [of "x - 1"] ax by simp
    then have ne: "xs \<noteq> []" by auto
    have "x - 1 \<le> last xs"
      using sx mem by (rule sorted_le_last)
    moreover have "last xs < x" using le [of "last xs"] ne by simp
    ultimately have lx: "last xs = x - 1" by simp
    have "last xs - a + 1 \<le> current_longest ?s"
    proof (rule ih4, intro conjI allI impI)
      show "xs \<noteq> []" by (rule ne)
      show "a \<le> last xs" using ax lx by simp
    next
      fix d assume d: "a \<le> d \<and> d \<le> last xs"
      then have "d \<in> set (xs @ [x]) \<and> status_of ds d" using all [of d] lx by simp
      then show "d \<in> set xs" using d lx by simp
      show "status_of ds d" using d all [of d] lx by simp
    qed
    moreover have "prev_day ?s = Some (x - 1)" using ih3 ne lx by simp
    ultimately show ?thesis using ok lx by (simp add: step_current_longest st)
  qed
  have best: "b - a + 1 \<le> longest_streak ?t"
    if ab: "a \<le> b"
      and all: "\<And>d. a \<le> d \<Longrightarrow> d \<le> b \<Longrightarrow> d \<in> set (xs @ [x]) \<and> status_of ds d"
    for a b
  proof (cases "b = x")
    case True
    then show ?thesis using run [of a] ab all cl by simp
  next
    case False
    have "b \<in> set (xs @ [x])" using all [of b] ab by simp
    then have bx: "b < x" using False le by auto
    have "b - a + 1 \<le> longest_streak ?s"
    proof (rule ih5, intro conjI allI impI)
      show "a \<le> b" by (rule ab)
    next
      fix d assume d: "a \<le> d \<and> d \<le> b"
      then show "d \<in> set xs" using all [of d] bx by simp
      show "status_of ds d" using d all [of d] by simp
    qed
    then show ?thesis by (simp add: step_longest_streak max_def)
  qed
  show ?case
    unfolding longest_pass_snoc
  proof (intro conjI allI impI)
    show "0 \<le> current_longest ?t" by (rule c0)
    show "current_longest ?t \<le> longest_streak ?t" by (rule cl)
    show "longest_streak ?t \<le> int (length (xs @ [x]))" by (rule ll)
    show "prev_day ?t = (if xs @ [x] = [] then None else Some (last (xs @ [x])))"
      using pv by simp
  next
    fix a
    assume h: "xs @ [x] \<noteq> [] \<and> a \<le> last (xs @ [x]) \<and>
         (\<forall>d. a \<le> d \<and> d \<le> last (xs @ [x]) \<longrightarrow> d \<in> set (xs @ [x]) \<and> status_of ds d)"
    have "x - a + 1 \<le> current_longest ?t"
      by (rule run) (use h in simp_all)
    then show "last (xs @ [x]) - a + 1 \<le> current_longest ?t" by simp
  next
    fix a b
    assume h: "a \<le> b \<and> (\<forall>d. a \<le> d \<and> d \<le> b \<longrightarrow> d \<in> set (xs @ [x]) \<and> status_of ds d)"
    show "b - a + 1 \<le> longest_streak ?t"
      by (rule best) (use h in simp_all)
  qed
qed

lemma current_scan_bound:
  "current_scan n ds sd clk k day cur = Inr c \<Longrightarrow> 0 \<le> cur \<Longrightarrow> 0 \<le> c \<and> c \<le> cur + int n"
proof (induction n arbitrary: k day cur)
  case 0
  then show ?case by simp
next
  case (Suc n)
  show ?case
  proof (cases "ds day")
    case None
    with Suc.prems Suc.IH [of "Suc (Suc k)" "day - 1" cur] show ?thesis
      by (auto split: if_splits)
  next
    case (Some ok)
    with Suc.prems Suc.IH [of k "day - 1" "cur + 1"] show ?thesis
      by (auto split: if_splits)
  qed
qed

lemma current_scan_clock:
  "(\<forall>j. k \<le> j \<and> j < k + 2 * n \<longrightarrow> c1 j = c2 j) \<Longrightarrow>
   current_scan n ds sd c1 k day cur = current_scan n ds sd c2 k day cur"
proof (induction n arbitrary: k day cur)
  case 0
  show ?case by simp
next
  case (Suc n)
  have a: "c1 k = c2 k" and b: "c1 (Suc k) = c2 (Suc k)"
    using Suc.prems by simp_all
  have r1: "current_scan n ds sd c1 k d c = current_scan n ds sd c2 k d c" for d c
    by (rule Suc.IH) (use Suc.prems in simp)
  have r2: "current_scan n ds sd c1 (Suc (Suc k)) d c = current_scan n ds sd c2 (Suc (Suc k)) d c"
    for d c
    by (rule Suc.IH) (use Suc.prems in simp)
  show ?case
    by (cases "ds day") (simp_all add: a b r1 r2)
qed

lemma current_scan_returns:
  "1 \<le> first \<Longrightarrow> \<exists>c. current_scan n ds (first # rest) clk k day cur = Inr c"
proof (induction n arbitrary: k day cur)
  case 0
  show ?case by simp
next
  case (Suc n)
  show ?case
    using Suc.prems Suc.IH [OF Suc.prems]
    by (cases "ds day") auto
qed

lemma current_scan_past:
  "(\<forall>j. day < clk j) \<Longrightarrow> current_scan n ds sd clk k day cur = Inr c \<Longrightarrow>
   c = 0 \<or> (cur \<le> c \<and> (\<forall>d. day - (c - cur) < d \<and> d \<le> day \<longrightarrow> ds d = Some True))"
proof (induction n arbitrary: k day cur)
  case 0
  then show ?case by auto
next
  case (Suc n)
  show ?case
  proof (cases "ds day")
    case None
    with Suc.prems show ?thesis
      by (auto split: if_splits)
  next
    case (Some ok)
    show ?thesis
    proof (cases ok)
      case False
      with Some Suc.prems show ?thesis by simp
    next
      case True
      have tr: "ds day = Some True" using Some True by simp
      show ?thesis
      proof (cases "case sd of [] \<Rightarrow> False | first # _ \<Rightarrow> day \<le> first")
        case True
        with tr Suc.prems have c: "c = cur + 1" by simp
        have "ds d = Some True" if "day - (c - cur) < d \<and> d \<le> day" for d
        proof -
          have "d = day" using that c by simp
          then show ?thesis using tr by simp
        qed
        then show ?thesis using c by simp
      next
        case False
        with tr Suc.prems have rec: "current_scan n ds sd clk k (day - 1) (cur + 1) = Inr c"
          by (simp split: if_splits)
        have "\<forall>j. day - 1 < clk j"
        proof
          fix j show "day - 1 < clk j" using Suc.prems(1) [rule_format, of j] by simp
        qed
        from Suc.IH [OF this rec]
        show ?thesis
        proof
          assume "c = 0" then show ?thesis by simp
        next
          assume h: "cur + 1 \<le> c
            \<and> (\<forall>d. day - 1 - (c - (cur + 1)) < d \<and> d \<le> day - 1 \<longrightarrow> ds d = Some True)"
          have "ds d = Some True" if "day - (c - cur) < d \<and> d \<le> day" for d
          proof (cases "d = day")
            case True then show ?thesis using tr by simp
          next
            case False
            then show ?thesis using h that by simp
          qed
          then show ?thesis using h by simp
        qed
      qed
    qed
  qed
qed

lemma current_scan_first:
  assumes clk: "\<forall>j. clk 0 \<le> clk j"
    and sc: "current_scan (Suc n) ds sd clk k (clk 0) 0 = Inr c"
  shows "c = 0 \<or> (\<exists>b. \<forall>d. b - c < d \<and> d \<le> b \<longrightarrow> ds d = Some True)"
proof -
  let ?day = "clk 0"
  have past: "\<forall>j. ?day - 1 < clk j"
  proof
    fix j show "?day - 1 < clk j" using clk [rule_format, of j] by simp
  qed
  show ?thesis
  proof (cases "ds ?day")
    case None
    show ?thesis
    proof (cases "c = 0")
      case True then show ?thesis by simp
    next
      case False
      with None sc have rec: "current_scan n ds sd clk (Suc (Suc k)) (?day - 1) 0 = Inr c"
        by (simp split: if_splits)
      from current_scan_past [OF past rec] False
      have "\<forall>d. ?day - 1 - c < d \<and> d \<le> ?day - 1 \<longrightarrow> ds d = Some True" by simp
      then show ?thesis by blast
    qed
  next
    case (Some ok)
    show ?thesis
    proof (cases "c = 0")
      case True then show ?thesis by simp
    next
      case False
      with Some sc have tr: "ds ?day = Some True" by (cases ok) simp_all
      show ?thesis
      proof (cases "case sd of [] \<Rightarrow> False | first # _ \<Rightarrow> ?day \<le> first")
        case True
        with tr sc have c: "c = 1" by simp
        have "ds d = Some True" if "?day - c < d \<and> d \<le> ?day" for d
        proof -
          have "d = ?day" using that c by simp
          then show ?thesis using tr by simp
        qed
        then show ?thesis by blast
      next
        case nf: False
        with tr sc have rec: "current_scan n ds sd clk k (?day - 1) (0 + 1) = Inr c"
          by (simp split: if_splits)
        from current_scan_past [OF past rec] False
        have h: "1 \<le> c \<and> (\<forall>d. ?day - 1 - (c - 1) < d \<and> d \<le> ?day - 1 \<longrightarrow> ds d = Some True)"
          by simp
        have "ds d = Some True" if "?day - c < d \<and> d \<le> ?day" for d
        proof (cases "d = ?day")
          case True then show ?thesis using tr by simp
        next
          case False
          then show ?thesis using h that by simp
        qed
        then show ?thesis by blast
      qed
    qed
  qed
qed

lemma current_scan_all_success:
  "first \<le> day \<Longrightarrow> 1 \<le> first \<Longrightarrow>
   (\<forall>d. first \<le> d \<and> d \<le> day \<longrightarrow> ds d = Some True) \<Longrightarrow>
   current_scan n ds (first # rest) clk k day cur = Inr (cur + min (int n) (day - first + 1))"
proof (induction n arbitrary: k day cur)
  case 0
  then show ?case by simp
next
  case (Suc n)
  have tr: "ds day = Some True" using Suc.prems by simp
  show ?case
  proof (cases "day \<le> first")
    case True
    then show ?thesis using tr Suc.prems by simp
  next
    case False
    then have "first \<le> day - 1" by simp
    from Suc.IH [OF this Suc.prems(2), of k "cur + 1"] Suc.prems(3)
    have "current_scan n ds (first # rest) clk k (day - 1) (cur + 1)
            = Inr (cur + 1 + min (int n) (day - 1 - first + 1))" by simp
    then show ?thesis using tr False Suc.prems(2) by (simp add: min_def)
  qed
qed

lemma finite_entry_dates: "finite (entry_dates es)"
proof -
  have "entry_dates es \<subseteq> (\<lambda>e. case entry_date e of Inr d \<Rightarrow> d | Inl _ \<Rightarrow> 0) ` set es"
    by (force simp: entry_dates_def image_iff)
  then show ?thesis by (rule finite_subset) simp
qed

lemma entry_dates_nonempty: "list_all parses es \<Longrightarrow> es \<noteq> [] \<Longrightarrow> entry_dates es \<noteq> {}"
  by (cases es) (auto simp: entry_dates_def parses_iff)

lemma calculate_streak_parsed:
  assumes "list_all parses es" and "es \<noteq> []"
  shows "calculate_streak es clk =
     (case current_scan 365
             (day_status (longest_pass (sorted_list_of_set (entry_dates es)) (pass_init (failures es))))
             (sorted_list_of_set (entry_dates es)) clk 1 (clk 0) 0 of
        Inl err \<Rightarrow> Inl err
      | Inr c \<Rightarrow>
          Inr (c, longest_streak
                    (longest_pass (sorted_list_of_set (entry_dates es)) (pass_init (failures es)))))"
proof -
  have "sorted_list_of_set (entry_dates es) \<noteq> []"
    using entry_dates_nonempty [OF assms] finite_entry_dates [of es]
    by (simp add: sorted_list_of_set_eq_Nil_iff)
  then show ?thesis
    using assms(2) build_status_ok [OF assms(1), of Map.empty "{}"]
    by (simp add: calculate_streak_def Let_def)
qed

lemma calculate_streak_Inr_parses:
  "calculate_streak es clk = Inr r \<Longrightarrow> list_all parses es"
proof (cases "es = []")
  case True
  then show ?thesis by simp
next
  case False
  assume "calculate_streak es clk = Inr r"
  then obtain b where "build_status es Map.empty {} = Inr b"
    using False by (auto simp: calculate_streak_def split: sum.splits)
  then show ?thesis by (rule build_status_parses)
qed

lemma days_before_year_nonneg: "1 \<le> y \<Longrightarrow> 0 \<le> days_before_year y"
proof -
  assume y: "1 \<le> y"
  have "(y - 1) div 100 \<le> (y - 1) div 4"
    by (rule zdiv_mono2) (use y in simp_all)
  moreover have "0 \<le> (y - 1) div 400"
    using y by (simp add: pos_imp_zdiv_nonneg_iff)
  moreover have "0 \<le> (y - 1) * 365" using y by simp
  ultimately show ?thesis by (simp add: days_before_year_def Let_def)
qed

lemma days_before_month_nonneg: "1 \<le> m \<Longrightarrow> m \<le> 12 \<Longrightarrow> 0 \<le> days_before_month y m"
proof -
  assume "1 \<le> m" and "m \<le> 12"
  then have "m = 1 \<or> m = 2 \<or> m = 3 \<or> m = 4 \<or> m = 5 \<or> m = 6 \<or> m = 7 \<or> m = 8 \<or> m = 9
             \<or> m = 10 \<or> m = 11 \<or> m = 12"
    by arith
  then show ?thesis
    by (elim disjE) (simp_all add: days_before_month_def)
qed

lemma strptime_date_pos: "strptime_date s = Inr d \<Longrightarrow> 1 \<le> d"
proof -
  assume "strptime_date s = Inr d"
  then obtain y m dd where "1 \<le> y" "1 \<le> m" "m \<le> 12" "1 \<le> dd" "d = ymd2ord y m dd"
    by (auto simp: strptime_date_def split: option.splits prod.splits if_splits)
  then show ?thesis
    using days_before_year_nonneg [of y] days_before_month_nonneg [of m y]
    by (simp add: ymd2ord_def)
qed

lemma entry_date_pos: "entry_date e = Inr d \<Longrightarrow> 1 \<le> d"
  by (auto simp: entry_date_def split: list.splits dest: strptime_date_pos)

lemma set_sorted_entry_dates: "set (sorted_list_of_set (entry_dates es)) = entry_dates es"
  by (simp add: finite_entry_dates)

lemma calculate_streak_returns:
  assumes "list_all parses es"
  shows "\<exists>c l. calculate_streak es clk = Inr (c, l)"
proof (cases "es = []")
  case True
  then show ?thesis by (simp add: calculate_streak_def)
next
  case False
  let ?sd = "sorted_list_of_set (entry_dates es)"
  have "?sd \<noteq> []"
    using entry_dates_nonempty [OF assms False] finite_entry_dates [of es]
    by (simp add: sorted_list_of_set_eq_Nil_iff)
  then obtain first rest where sd: "?sd = first # rest" by (cases ?sd) auto
  have "first \<in> entry_dates es"
    using set_sorted_entry_dates [of es] sd by auto
  then have "1 \<le> first" by (auto simp: entry_dates_def dest: entry_date_pos)
  from current_scan_returns [OF this]
  show ?thesis
    unfolding calculate_streak_parsed [OF assms False] sd
    by (metis (no_types, lifting) sum.simps(6))
qed

lemma sorted_list_of_set_interval: "sorted_list_of_set {a..b :: int} = [a..b]"
  by (rule sorted_distinct_set_unique) simp_all

lemma run_streaks:
  assumes N: "1 \<le> N"
    and ok: "\<forall>e\<in>set es. (\<exists>d. entry_date e = Inr d) \<and> success e \<noteq> 0"
    and dates: "{d. \<exists>e\<in>set es. entry_date e = Inr d} = {today - N + 1..today}"
    and clk: "clk 0 = today"
  shows "calculate_streak es clk = Inr (min N 365, N)"
proof -
  let ?a = "today - N + 1"
  let ?s = "longest_pass [?a..today] (pass_init Map.empty)"
  have p: "list_all parses es" using ok by (simp add: list_all_iff parses_iff)
  have ed: "entry_dates es = {?a..today}" using dates by (simp add: entry_dates_def)
  have "today \<in> entry_dates es" unfolding ed using N by simp
  then have ne: "es \<noteq> []" by (auto simp: entry_dates_def)
  have "?a \<in> entry_dates es" unfolding ed using N by simp
  then have a1: "1 \<le> ?a" by (auto simp: entry_dates_def dest: entry_date_pos)
  have fl: "failures es = Map.empty" using ok by (auto simp: fails_on_def)
  have sd: "sorted_list_of_set (entry_dates es) = [?a..today]"
    unfolding ed by (rule sorted_list_of_set_interval)
  have up: "[?a..today] = ?a # [?a + 1..today]" using N by (simp add: upto_rec1)
  have tr: "\<forall>d. ?a \<le> d \<and> d \<le> today \<longrightarrow> day_status ?s d = Some True"
    by (simp add: longest_pass_day_status status_of_simp)
  have "current_scan 365 (day_status ?s) (?a # [?a + 1..today]) clk 1 today 0
          = Inr (0 + min (int 365) (today - ?a + 1))"
    by (rule current_scan_all_success) (use N a1 tr in simp_all)
  then have sc: "current_scan 365 (day_status ?s) [?a..today] clk 1 today 0 = Inr (min N 365)"
    using up by (simp add: min.commute)
  note inv = longest_pass_inv [of "[?a..today]" Map.empty]
  have "longest_streak ?s \<le> int (length [?a..today])" using inv by simp
  then have le: "longest_streak ?s \<le> N" using N by simp
  have "today - ?a + 1 \<le> longest_streak ?s"
    by (rule inv [THEN conjunct2, THEN conjunct2, THEN conjunct2, THEN conjunct2,
          THEN conjunct2, rule_format]) (use N in \<open>simp_all add: status_of_simp\<close>)
  then have "longest_streak ?s = N" using le by simp
  then show ?thesis
    unfolding calculate_streak_parsed [OF p ne] sd fl clk sc by simp
qed

lemma longest_pass_same_counter:
  "current_longest s = current_longest s' \<Longrightarrow> prev_day s = prev_day s' \<Longrightarrow>
   (\<forall>d. status_of (day_status s) d = status_of (day_status s') d) \<Longrightarrow>
   current_longest (longest_pass ys s) = current_longest (longest_pass ys s')"
proof (induction ys arbitrary: s s')
  case Nil
  then show ?case by simp
next
  case (Cons y ys)
  show ?case
    unfolding longest_pass.simps
  proof (rule Cons.IH)
    show "current_longest (longest_step s y) = current_longest (longest_step s' y)"
      using Cons.prems by (simp add: step_current_longest)
    show "prev_day (longest_step s y) = prev_day (longest_step s' y)"
      by (simp add: step_prev_day)
    show "\<forall>d. status_of (day_status (longest_step s y)) d
             = status_of (day_status (longest_step s' y)) d"
      using Cons.prems by (simp add: step_status_of)
  qed
qed

subsection \<open>The test input of 366 days\<close>

lemma int_of_char_of: "(of_char (char_of (n::nat)) :: int) = int (n mod 256)"
proof -
  have "(of_char (char_of n) :: int) = int (of_char (char_of n))"
    by (simp only: of_nat_of_char)
  then show ?thesis by simp
qed

lemma digit_char:
  assumes "(k::nat) < 10"
  shows "of_char (char_of (48 + k)) = 48 + k"
    and "\<not> is_space (char_of (48 + k))"
    and "char_of (48 + k) \<noteq> CHR ''-''"
proof -
  show o: "of_char (char_of (48 + k)) = 48 + k" using assms by simp
  show "\<not> is_space (char_of (48 + k))"
    unfolding is_space_def Let_def o using assms by simp
  have "of_char (char_of (48 + k)) \<noteq> (of_char CHR ''-'' :: nat)"
    unfolding o by simp
  then show "char_of (48 + k) \<noteq> CHR ''-''" by (simp only: of_char_eq_iff not_False_eq_True)
qed

lemma two_digits_chars:
  "c \<in> set (two_digits n) \<Longrightarrow> n < 100 \<Longrightarrow> \<not> is_space c \<and> c \<noteq> CHR ''-''"
proof -
  assume c: "c \<in> set (two_digits n)" and n: "n < 100"
  have "n div 10 < 10" "n mod 10 < 10" using n by simp_all
  then show ?thesis using c digit_char(2,3) by (auto simp: two_digits_def)
qed

lemma two_digits_day: "1 \<le> d \<Longrightarrow> d \<le> 31 \<Longrightarrow> match_day (two_digits d) = Some (int d)"
proof -
  assume "1 \<le> d" and "d \<le> 31"
  then have "d = 1 \<or> d = 2 \<or> d = 3 \<or> d = 4 \<or> d = 5 \<or> d = 6 \<or> d = 7 \<or>
    d = 8 \<or> d = 9 \<or> d = 10 \<or> d = 11 \<or> d = 12 \<or> d = 13 \<or> d = 14 \<or> d = 15 \<or>
    d = 16 \<or> d = 17 \<or> d = 18 \<or> d = 19 \<or> d = 20 \<or> d = 21 \<or> d = 22 \<or>
    d = 23 \<or> d = 24 \<or> d = 25 \<or> d = 26 \<or> d = 27 \<or> d = 28 \<or> d = 29 \<or>
    d = 30 \<or> d = 31"
    by arith
  then show ?thesis
    by (elim disjE)
       (simp_all add: two_digits_def is_digit_def digit_val_def char_of_eq_iff int_of_char_of)
qed

lemma two_digits_month: "1 \<le> m \<Longrightarrow> m \<le> 12 \<Longrightarrow> match_month (two_digits m) = Some (int m)"
proof -
  assume "1 \<le> m" and "m \<le> 12"
  then have "m = 1 \<or> m = 2 \<or> m = 3 \<or> m = 4 \<or> m = 5 \<or> m = 6 \<or> m = 7 \<or>
    m = 8 \<or> m = 9 \<or> m = 10 \<or> m = 11 \<or> m = 12"
    by arith
  then show ?thesis
    by (elim disjE)
       (simp_all add: two_digits_def is_digit_def digit_val_def char_of_eq_iff int_of_char_of)
qed


lemma iso_2024_parses:
  assumes m: "1 \<le> m" "m \<le> 12" and d: "1 \<le> d" "int d \<le> days_in_month 2024 (int m)"
  shows "entry_date \<lparr>date = ''2024-'' @ two_digits m @ ''-'' @ two_digits d, success = s\<rparr>
           = Inr (ymd2ord 2024 (int m) (int d))"
proof -
  have d31: "d \<le> 31" using d(2) by (simp add: days_in_month_def split: if_splits)
  obtain a b where ab: "two_digits m = [a, b]" by (simp add: two_digits_def)
  obtain c e where ce: "two_digits d = [c, e]" by (simp add: two_digits_def)
  have mm: "match_month [a, b] = Some (int m)"
    using two_digits_month [OF m] by (simp only: ab)
  have md: "match_day [c, e] = Some (int d)"
    using two_digits_day [OF d(1) d31] by (simp only: ce)
  have "\<not> is_space x \<and> x \<noteq> CHR ''-''" if "x \<in> set (two_digits m)" for x
    by (rule two_digits_chars [OF that]) (use m in simp)
  then have cm: "\<not> is_space a" "\<not> is_space b" "a \<noteq> CHR ''-''" "b \<noteq> CHR ''-''"
    by (simp_all add: ab)
  have "\<not> is_space x \<and> x \<noteq> CHR ''-''" if "x \<in> set (two_digits d)" for x
    by (rule two_digits_chars [OF that]) (use d31 in simp)
  then have cd: "\<not> is_space c" "\<not> is_space e"
    by (simp_all add: ce)
  have lit: "\<not> is_space CHR ''2''" "\<not> is_space CHR ''0''" "\<not> is_space CHR ''4''"
    "\<not> is_space CHR ''-''" "is_digit CHR ''2''" "is_digit CHR ''0''" "is_digit CHR ''4''"
    "digit_val CHR ''2'' = 2" "digit_val CHR ''0'' = 0" "digit_val CHR ''4'' = 4"
    by (simp_all add: is_space_def is_digit_def digit_val_def)
  have tok: "split_ws [] (''2024-'' @ [a, b] @ ''-'' @ [c, e]) = [''2024-'' @ [a, b] @ ''-'' @ [c, e]]"
    using cm cd lit by simp
  have ymd: "match_ymd (''2024-'' @ [a, b] @ ''-'' @ [c, e]) = Some (2024, int m, int d)"
    using cm mm md lit by simp
  have "strptime_date (''2024-'' @ [a, b] @ ''-'' @ [c, e]) = Inr (ymd2ord 2024 (int m) (int d))"
    unfolding strptime_date_def ymd using m d by simp
  then show ?thesis
    unfolding entry_date_def ab ce by (simp only: entry.simps tok list.case)
qed


lemma entry_dates_append: "entry_dates (xs @ ys) = entry_dates xs \<union> entry_dates ys"
  by (auto simp: entry_dates_def)

lemma month_2024_parses:
  assumes "1 \<le> m" "m \<le> 12" "int n = days_in_month 2024 (int m)"
    and "e \<in> set (month_2024 m n)"
  shows "\<exists>d. 1 \<le> d \<and> d \<le> n \<and> entry_date e = Inr (ymd2ord 2024 (int m) (int d)) \<and> success e = 1"
proof -
  from assms(4) obtain d where d: "1 \<le> d" "d \<le> n"
    and e: "e = \<lparr>date = ''2024-'' @ two_digits m @ ''-'' @ two_digits d, success = 1\<rparr>"
    by (auto simp: month_2024_def)
  have "entry_date e = Inr (ymd2ord 2024 (int m) (int d))"
    unfolding e by (rule iso_2024_parses) (use assms d in simp_all)
  then show ?thesis using d e by auto
qed

lemma month_2024_dates:
  assumes "1 \<le> m" "m \<le> 12" "int n = days_in_month 2024 (int m)"
  shows "entry_dates (month_2024 m n)
           = {days_before_year 2024 + days_before_month 2024 (int m) + 1
              ..days_before_year 2024 + days_before_month 2024 (int m) + int n}"
    (is "?L = {?c + 1..?c + int n}")
proof (intro set_eqI iffI)
  fix x assume "x \<in> ?L"
  then obtain e where e: "e \<in> set (month_2024 m n)" "entry_date e = Inr x"
    by (auto simp: entry_dates_def)
  from month_2024_parses [OF assms e(1)] e(2)
  show "x \<in> {?c + 1..?c + int n}" by (auto simp: ymd2ord_def)
next
  fix x assume x: "x \<in> {?c + 1..?c + int n}"
  let ?d = "nat (x - ?c)"
  let ?e = "\<lparr>date = ''2024-'' @ two_digits m @ ''-'' @ two_digits ?d, success = 1\<rparr>"
  have d: "1 \<le> ?d" "?d \<le> n" "int ?d = x - ?c" using x by auto
  have r: "?d \<in> set [1..<Suc n]" using d(1,2) by (auto simp del: upt_Suc)
  have mem: "?e \<in> set (month_2024 m n)"
    unfolding month_2024_def set_map by (rule image_eqI [OF refl r])
  have "entry_date ?e = Inr (ymd2ord 2024 (int m) (int ?d))"
    by (rule iso_2024_parses) (use assms d in simp_all)
  then have "entry_date ?e = Inr x" using d(3) by (simp add: ymd2ord_def)
  then show "x \<in> ?L" using mem unfolding entry_dates_def by blast
qed

lemma year_2024_months:
  "year_2024 = month_2024 1 31 @ month_2024 2 29 @ month_2024 3 31 @ month_2024 4 30 @
     month_2024 5 31 @ month_2024 6 30 @ month_2024 7 31 @ month_2024 8 31 @
     month_2024 9 30 @ month_2024 10 31 @ month_2024 11 30 @ month_2024 12 31"
  by (simp add: year_2024_def)

lemma year_2024_ok: "\<forall>e\<in>set year_2024. (\<exists>d. entry_date e = Inr d) \<and> success e \<noteq> 0"
proof
  fix e assume "e \<in> set year_2024"
  then consider "e \<in> set (month_2024 1 31)" | "e \<in> set (month_2024 2 29)" |
    "e \<in> set (month_2024 3 31)" | "e \<in> set (month_2024 4 30)" |
    "e \<in> set (month_2024 5 31)" | "e \<in> set (month_2024 6 30)" |
    "e \<in> set (month_2024 7 31)" | "e \<in> set (month_2024 8 31)" |
    "e \<in> set (month_2024 9 30)" | "e \<in> set (month_2024 10 31)" |
    "e \<in> set (month_2024 11 30)" | "e \<in> set (month_2024 12 31)"
    unfolding year_2024_months by auto
  then have "\<exists>d. entry_date e = Inr d \<and> success e = 1"
  proof cases
    case 1
    from month_2024_parses [OF _ _ _ this] show ?thesis
      by (fastforce simp: days_in_month_def is_leap_def)
  next
    case 2
    from month_2024_parses [OF _ _ _ this] show ?thesis
      by (fastforce simp: days_in_month_def is_leap_def)
  next
    case 3
    from month_2024_parses [OF _ _ _ this] show ?thesis
      by (fastforce simp: days_in_month_def is_leap_def)
  next
    case 4
    from month_2024_parses [OF _ _ _ this] show ?thesis
      by (fastforce simp: days_in_month_def is_leap_def)
  next
    case 5
    from month_2024_parses [OF _ _ _ this] show ?thesis
      by (fastforce simp: days_in_month_def is_leap_def)
  next
    case 6
    from month_2024_parses [OF _ _ _ this] show ?thesis
      by (fastforce simp: days_in_month_def is_leap_def)
  next
    case 7
    from month_2024_parses [OF _ _ _ this] show ?thesis
      by (fastforce simp: days_in_month_def is_leap_def)
  next
    case 8
    from month_2024_parses [OF _ _ _ this] show ?thesis
      by (fastforce simp: days_in_month_def is_leap_def)
  next
    case 9
    from month_2024_parses [OF _ _ _ this] show ?thesis
      by (fastforce simp: days_in_month_def is_leap_def)
  next
    case 10
    from month_2024_parses [OF _ _ _ this] show ?thesis
      by (fastforce simp: days_in_month_def is_leap_def)
  next
    case 11
    from month_2024_parses [OF _ _ _ this] show ?thesis
      by (fastforce simp: days_in_month_def is_leap_def)
  next
    case 12
    from month_2024_parses [OF _ _ _ this] show ?thesis
      by (fastforce simp: days_in_month_def is_leap_def)
  qed
  then show "(\<exists>d. entry_date e = Inr d) \<and> success e \<noteq> 0" by auto
qed

lemma year_2024_dates:
  "entry_dates year_2024 = {ymd2ord 2024 12 31 - 366 + 1..ymd2ord 2024 12 31}"
proof -
  have d1: "entry_dates (month_2024 1 31) =
      {days_before_year 2024 + days_before_month 2024 1 + 1
       ..days_before_year 2024 + days_before_month 2024 1 + 31}"
    using month_2024_dates [of 1 31] by (simp add: days_in_month_def is_leap_def)
  have d2: "entry_dates (month_2024 2 29) =
      {days_before_year 2024 + days_before_month 2024 2 + 1
       ..days_before_year 2024 + days_before_month 2024 2 + 29}"
    using month_2024_dates [of 2 29] by (simp add: days_in_month_def is_leap_def)
  have d3: "entry_dates (month_2024 3 31) =
      {days_before_year 2024 + days_before_month 2024 3 + 1
       ..days_before_year 2024 + days_before_month 2024 3 + 31}"
    using month_2024_dates [of 3 31] by (simp add: days_in_month_def is_leap_def)
  have d4: "entry_dates (month_2024 4 30) =
      {days_before_year 2024 + days_before_month 2024 4 + 1
       ..days_before_year 2024 + days_before_month 2024 4 + 30}"
    using month_2024_dates [of 4 30] by (simp add: days_in_month_def is_leap_def)
  have d5: "entry_dates (month_2024 5 31) =
      {days_before_year 2024 + days_before_month 2024 5 + 1
       ..days_before_year 2024 + days_before_month 2024 5 + 31}"
    using month_2024_dates [of 5 31] by (simp add: days_in_month_def is_leap_def)
  have d6: "entry_dates (month_2024 6 30) =
      {days_before_year 2024 + days_before_month 2024 6 + 1
       ..days_before_year 2024 + days_before_month 2024 6 + 30}"
    using month_2024_dates [of 6 30] by (simp add: days_in_month_def is_leap_def)
  have d7: "entry_dates (month_2024 7 31) =
      {days_before_year 2024 + days_before_month 2024 7 + 1
       ..days_before_year 2024 + days_before_month 2024 7 + 31}"
    using month_2024_dates [of 7 31] by (simp add: days_in_month_def is_leap_def)
  have d8: "entry_dates (month_2024 8 31) =
      {days_before_year 2024 + days_before_month 2024 8 + 1
       ..days_before_year 2024 + days_before_month 2024 8 + 31}"
    using month_2024_dates [of 8 31] by (simp add: days_in_month_def is_leap_def)
  have d9: "entry_dates (month_2024 9 30) =
      {days_before_year 2024 + days_before_month 2024 9 + 1
       ..days_before_year 2024 + days_before_month 2024 9 + 30}"
    using month_2024_dates [of 9 30] by (simp add: days_in_month_def is_leap_def)
  have d10: "entry_dates (month_2024 10 31) =
      {days_before_year 2024 + days_before_month 2024 10 + 1
       ..days_before_year 2024 + days_before_month 2024 10 + 31}"
    using month_2024_dates [of 10 31] by (simp add: days_in_month_def is_leap_def)
  have d11: "entry_dates (month_2024 11 30) =
      {days_before_year 2024 + days_before_month 2024 11 + 1
       ..days_before_year 2024 + days_before_month 2024 11 + 30}"
    using month_2024_dates [of 11 30] by (simp add: days_in_month_def is_leap_def)
  have d12: "entry_dates (month_2024 12 31) =
      {days_before_year 2024 + days_before_month 2024 12 + 1
       ..days_before_year 2024 + days_before_month 2024 12 + 31}"
    using month_2024_dates [of 12 31] by (simp add: days_in_month_def is_leap_def)
  show ?thesis
    unfolding year_2024_months entry_dates_append d1 d2 d3 d4 d5 d6 d7 d8 d9 d10 d11 d12
    by (auto simp: ymd2ord_def days_before_year_def days_before_month_def is_leap_def)
qed

lemma year_2024_streaks:
  "calculate_streak year_2024 (\<lambda>_. ymd2ord 2024 12 31) = Inr (365, 366)"
proof -
  have s: "{d. \<exists>e\<in>set year_2024. entry_date e = Inr d}
             = {ymd2ord 2024 12 31 - 366 + 1..ymd2ord 2024 12 31}"
    using year_2024_dates by (simp add: entry_dates_def)
  have "calculate_streak year_2024 (\<lambda>_. ymd2ord 2024 12 31) = Inr (min 366 365, 366)"
    by (rule run_streaks [OF _ year_2024_ok s]) simp_all
  then show ?thesis by simp
qed

section \<open>Properties\<close>

subsection \<open>Empty input\<close>

text \<open>
  Claim C4. For every clock, and so for every date that today can be, the function
  applied to the empty list of entries raises nothing and returns \<open>(0, 0)\<close>.
\<close>

theorem calculate_streak_empty: "calculate_streak [] clk = Inr (0, 0)"
  by (simp add: calculate_streak_def)

subsection \<open>A failure inside the scanned days\<close>

text \<open>
  Claim C1. With successes on 2025-01-01 and 2025-01-02, a failure on 2025-01-03, a
  success on 2025-01-04 and the clock at 2025-01-04, the scan counts 2025-01-04, meets
  the failure of 2025-01-03 and sets the counter back to 0 (line 95) before it stops:
  the function returns the current streak 0, not 1, with the longest streak 2.
\<close>

theorem calculate_streak_failure_resets:
  "calculate_streak
     [\<lparr>date = ''2025-01-01'', success = 1\<rparr>, \<lparr>date = ''2025-01-02'', success = 1\<rparr>,
      \<lparr>date = ''2025-01-03'', success = 0\<rparr>, \<lparr>date = ''2025-01-04'', success = 1\<rparr>]
     (\<lambda>_. ymd2ord 2025 1 4) = Inr (0, 2)"
  by code_simp

subsection \<open>No entry for today\<close>

text \<open>
  Claim C2. With successes on 2025-01-01, 2025-01-02 and 2025-01-03, no entry for
  2025-01-04 and the clock at 2025-01-04, the scan stops in its first iteration (line
  104) before it looks at 2025-01-03: the function returns the current streak 0, not
  the length 3 of the run that ends yesterday.
\<close>

theorem calculate_streak_today_missing:
  "calculate_streak
     [\<lparr>date = ''2025-01-01'', success = 1\<rparr>, \<lparr>date = ''2025-01-02'', success = 1\<rparr>,
      \<lparr>date = ''2025-01-03'', success = 1\<rparr>]
     (\<lambda>_. ymd2ord 2025 1 4) = Inr (0, 3)"
  by code_simp

subsection \<open>The clock\<close>

text \<open>
  Claim C3, as amended. The function has no parameter for today: it reads the clock
  itself, once before the scan (line 87) and at most twice in each of the 365
  iterations (lines 100 and 103). The date of the call alone does not fix the
  result; the entries and these at most 731 reads do: two invocations with the same
  entries whose clocks agree on the reads 0 to 730, so in particular two invocations
  during which the date is the same today at every read, give the same result.
\<close>

theorem calculate_streak_clock_reads:
  "(\<forall>j. j \<le> 730 \<longrightarrow> c1 j = c2 j) \<Longrightarrow> calculate_streak es c1 = calculate_streak es c2"
proof -
  assume h: "\<forall>j. j \<le> 730 \<longrightarrow> c1 j = c2 j"
  have z: "c1 0 = c2 0" using h by simp
  have "current_scan 365 ds sd c1 1 day cur = current_scan 365 ds sd c2 1 day cur" for ds sd day cur
    by (rule current_scan_clock) (use h in simp)
  then show ?thesis
    by (simp add: calculate_streak_def Let_def z split: sum.splits prod.splits)
qed

text \<open>Two clocks that differ from read 731 on, at one entry.\<close>

theorem calculate_streak_clock_reads_witness:
  "calculate_streak [\<lparr>date = ''2025-01-03'', success = 1\<rparr>] (\<lambda>_. ymd2ord 2025 1 4)
     = calculate_streak [\<lparr>date = ''2025-01-03'', success = 1\<rparr>]
         (\<lambda>k. if k \<le> 730 then ymd2ord 2025 1 4 else ymd2ord 2025 1 5)"
  using calculate_streak_clock_reads [of "\<lambda>_. ymd2ord 2025 1 4"
      "\<lambda>k. if k \<le> 730 then ymd2ord 2025 1 4 else ymd2ord 2025 1 5"
      "[\<lparr>date = ''2025-01-03'', success = 1\<rparr>]"]
  by simp

text \<open>
  The claim as stated fails within its own condition, identical entries and the same
  today. Both clocks below show 2025-01-04 when the function is called (read 0, line
  87) and at the read of line 100; the first shows 2025-01-04 at the read of line 103
  as well, the second shows 2025-01-05 there, the day having changed between the two
  reads. With one entry, a success on 2025-01-03, the first invocation stops at
  line 104 and returns \<open>(0, 1)\<close>; the second passes both tests, goes on to
  2025-01-03 and returns \<open>(1, 1)\<close>.
\<close>

theorem calculate_streak_same_today_differs:
  "(\<lambda>_. ymd2ord 2025 1 4) (0::nat)
     = (\<lambda>k::nat. if k < 2 then ymd2ord 2025 1 4 else ymd2ord 2025 1 5) 0
   \<and> calculate_streak [\<lparr>date = ''2025-01-03'', success = 1\<rparr>] (\<lambda>_. ymd2ord 2025 1 4)
       = Inr (0, 1)
   \<and> calculate_streak [\<lparr>date = ''2025-01-03'', success = 1\<rparr>]
         (\<lambda>k. if k < 2 then ymd2ord 2025 1 4 else ymd2ord 2025 1 5)
       = Inr (1, 1)"
  by code_simp

text \<open>
  A today parameter would be one value; the function has none, and the date of the
  call does not determine the result either way: with the same entry, the clock at
  2025-01-03 throughout gives \<open>(1, 1)\<close>.
\<close>

lemma calculate_streak_other_day:
  "calculate_streak [\<lparr>date = ''2025-01-03'', success = 1\<rparr>] (\<lambda>_. ymd2ord 2025 1 3)
     = Inr (1, 1)"
  by code_simp

subsection \<open>Several entries for one date\<close>

text \<open>
  Claim C5. When the loop over the entries ends without an error, the status that
  \<^verbatim>\<open>day_status[d]\<close> reads for a date \<open>d\<close> is a failure exactly when some entry of
  that date has \<^verbatim>\<open>success\<close> 0, and a success otherwise; every permutation of the
  entries gives the same dictionary and the same set of dates.
\<close>

theorem day_status_resolution:
  assumes "build_status es Map.empty {} = Inr (ds, dates)"
  shows "status_of ds d = (\<not> (\<exists>e\<in>set es. entry_date e = Inr d \<and> success e = 0))
       \<and> (mset es' = mset es \<longrightarrow> build_status es' Map.empty {} = Inr (ds, dates))"
proof -
  have p: "list_all parses es" using assms by (rule build_status_parses)
  have eq: "ds = (\<lambda>d. if fails_on es d then Some False else None)" "dates = entry_dates es"
    using assms build_status_ok [OF p, of Map.empty "{}"] by simp_all
  have 1: "status_of ds d = (\<not> (\<exists>e\<in>set es. entry_date e = Inr d \<and> success e = 0))"
    by (simp add: status_of_simp eq fails_on_def)
  have 2: "build_status es' Map.empty {} = Inr (ds, dates)" if "mset es' = mset es"
  proof -
    have se: "set es' = set es" using that by (rule mset_eq_setD)
    then have "list_all parses es'" using p by (simp add: list_all_iff)
    from build_status_ok [OF this, of Map.empty "{}"] show ?thesis
      by (simp add: eq fails_on_def entry_dates_def se)
  qed
  show ?thesis using 1 2 by blast
qed

text \<open>A success and a failure on 2025-01-03, in both orders.\<close>

theorem day_status_resolution_witness:
  "\<not> status_of [ymd2ord 2025 1 3 \<mapsto> False] (ymd2ord 2025 1 3)
   \<and> build_status [\<lparr>date = ''2025-01-03'', success = 0\<rparr>, \<lparr>date = ''2025-01-03'', success = 1\<rparr>]
        Map.empty {} = Inr ([ymd2ord 2025 1 3 \<mapsto> False], {ymd2ord 2025 1 3})"
proof -
  have h: "build_status [\<lparr>date = ''2025-01-03'', success = 1\<rparr>, \<lparr>date = ''2025-01-03'', success = 0\<rparr>]
        Map.empty {} = Inr ([ymd2ord 2025 1 3 \<mapsto> False], {ymd2ord 2025 1 3})"
    by (simp add: parse_defs)
  have e: "entry_date \<lparr>date = ''2025-01-03'', success = 0\<rparr> = Inr (ymd2ord 2025 1 3)"
    by (simp add: parse_defs)
  from day_status_resolution [OF h, of "ymd2ord 2025 1 3"
      "[\<lparr>date = ''2025-01-03'', success = 0\<rparr>, \<lparr>date = ''2025-01-03'', success = 1\<rparr>]"] e
  show ?thesis by simp
qed

subsection \<open>A run of successes that ends today\<close>

text \<open>
  Claim C6, as amended. For \<open>1 \<le> N \<le> 365\<close>: when every entry parses and is a
  success, and the dates of the entries are exactly the \<open>N\<close> days that end today
  (in any order, with or without repetitions), today being the date that the clock
  shows at its first read, the function returns the current streak \<open>N\<close> and the
  longest streak \<open>N\<close>.
\<close>

theorem consecutive_run_streaks:
  assumes "1 \<le> N" and "N \<le> 365"
    and "\<forall>e\<in>set es. (\<exists>d. entry_date e = Inr d) \<and> success e \<noteq> 0"
    and "{d. \<exists>e\<in>set es. entry_date e = Inr d} = {today - N + 1..today}"
    and "clk 0 = today"
  shows "calculate_streak es clk = Inr (N, N)"
  using run_streaks [of N es today clk] assms by simp

text \<open>The two days 2025-01-03 and 2025-01-04, given in descending order.\<close>

theorem consecutive_run_streaks_witness:
  "calculate_streak [\<lparr>date = ''2025-01-04'', success = 1\<rparr>, \<lparr>date = ''2025-01-03'', success = 1\<rparr>]
     (\<lambda>_. ymd2ord 2025 1 4) = Inr (2, 2)"
proof -
  have a: "entry_date \<lparr>date = ''2025-01-03'', success = 1\<rparr> = Inr 739254"
    and b: "entry_date \<lparr>date = ''2025-01-04'', success = 1\<rparr> = Inr 739255"
    and t: "ymd2ord 2025 1 4 = 739255"
    by (simp_all add: parse_defs)
  have n: "(1::int) \<le> 2" "(2::int) \<le> 365" by simp_all
  have ok: "\<forall>e\<in>set [\<lparr>date = ''2025-01-04'', success = 1\<rparr>, \<lparr>date = ''2025-01-03'', success = 1\<rparr>].
              (\<exists>d. entry_date e = Inr d) \<and> success e \<noteq> 0"
    using a b by simp
  have s: "{d. \<exists>e\<in>set [\<lparr>date = ''2025-01-04'', success = 1\<rparr>, \<lparr>date = ''2025-01-03'', success = 1\<rparr>].
             entry_date e = Inr d} = {ymd2ord 2025 1 4 - 2 + 1..ymd2ord 2025 1 4}"
    unfolding t using a b by auto
  from consecutive_run_streaks [OF n ok s, of "\<lambda>_. ymd2ord 2025 1 4"] show ?thesis by simp
qed

text \<open>
  The claim as stated fails for \<open>N = 366\<close>: the 366 entries of \<open>year_2024\<close> all
  parse and are successes, their dates are the 366 days that end on 2024-12-31, and
  with the clock at 2024-12-31 the function returns \<open>(365, 366)\<close>, the scan having
  used up its 365 iterations.
\<close>

theorem consecutive_run_capped:
  "length year_2024 = 366
   \<and> list_all (\<lambda>e. parses e \<and> success e \<noteq> 0) year_2024
   \<and> entry_dates year_2024 = {ymd2ord 2024 12 31 - 366 + 1..ymd2ord 2024 12 31}
   \<and> calculate_streak year_2024 (\<lambda>_. ymd2ord 2024 12 31) = Inr (365, 366)"
proof -
  have "length year_2024 = 366"
    by (simp add: year_2024_months month_2024_def)
  then show ?thesis
    using year_2024_ok year_2024_dates year_2024_streaks
    by (simp add: list_all_iff parses_iff)
qed

subsection \<open>Gaps in the pass for the longest streak\<close>

text \<open>
  Claim C7. In the pass over the sorted dates, let \<open>d\<close> follow \<open>p\<close> with
  \<open>d - p \<noteq> 1\<close> (a gap). Whatever came before, the running counter after \<open>d\<close>
  is 1 when \<open>d\<close> is a success and 0 when it is a failure; and from there on the
  counter is the one of a pass that starts at \<open>d\<close>: nothing is carried across the gap.
\<close>

theorem longest_pass_gap_resets:
  assumes gap: "d - p \<noteq> 1"
  shows "current_longest (longest_pass (xs @ [p, d]) s)
           = (if status_of (day_status s) d then 1 else 0)
       \<and> current_longest (longest_pass (xs @ p # d # ys) s)
           = current_longest (longest_pass (d # ys) (pass_init (day_status s)))"
proof -
  let ?u = "longest_step (longest_pass xs s) p"
  have pd: "prev_day ?u \<noteq> Some (d - 1)" using gap by (simp add: step_prev_day)
  have su: "status_of (day_status ?u) e = status_of (day_status s) e" for e
    by (simp add: step_status_of longest_pass_status_of)
  have cu: "current_longest (longest_step ?u d) = (if status_of (day_status s) d then 1 else 0)"
    using pd by (simp add: step_current_longest su)
  have 1: "current_longest (longest_pass (xs @ [p, d]) s)
             = (if status_of (day_status s) d then 1 else 0)"
    using cu by (simp add: longest_pass_append)
  have "current_longest (longest_pass ys (longest_step ?u d))
          = current_longest (longest_pass ys (longest_step (pass_init (day_status s)) d))"
  proof (rule longest_pass_same_counter)
    show "current_longest (longest_step ?u d)
            = current_longest (longest_step (pass_init (day_status s)) d)"
      using cu by (simp add: step_current_longest)
    show "prev_day (longest_step ?u d) = prev_day (longest_step (pass_init (day_status s)) d)"
      by (simp add: step_prev_day)
    show "\<forall>e. status_of (day_status (longest_step ?u d)) e
             = status_of (day_status (longest_step (pass_init (day_status s)) d)) e"
      by (simp add: step_status_of longest_pass_status_of)
  qed
  then have 2: "current_longest (longest_pass (xs @ p # d # ys) s)
                  = current_longest (longest_pass (d # ys) (pass_init (day_status s)))"
    by (simp add: longest_pass_append)
  show ?thesis using 1 2 by simp
qed

text \<open>The dates 2025-01-01, 2025-01-05 and 2025-01-06, all successes.\<close>

theorem longest_pass_gap_resets_witness:
  "current_longest (longest_pass [ymd2ord 2025 1 1, ymd2ord 2025 1 5] (pass_init Map.empty)) = 1
   \<and> current_longest
       (longest_pass [ymd2ord 2025 1 1, ymd2ord 2025 1 5, ymd2ord 2025 1 6] (pass_init Map.empty))
     = current_longest
         (longest_pass [ymd2ord 2025 1 5, ymd2ord 2025 1 6] (pass_init Map.empty))"
proof -
  have g: "ymd2ord 2025 1 5 - ymd2ord 2025 1 1 \<noteq> 1" by (simp add: parse_defs)
  from longest_pass_gap_resets [OF g, of "[]" "pass_init Map.empty" "[ymd2ord 2025 1 6]"]
  show ?thesis by (simp add: status_of_def dd_get_def)
qed

subsection \<open>The bound of the scan\<close>

text \<open>
  Claim C8. The scan is the loop \<^verbatim>\<open>for _ in range(365)\<close>: \<open>current_scan 365\<close> is
  defined by recursion on the number of iterations left, so it ends after at most 365
  of them for every input, and the function is total. Whenever the function returns,
  the current streak lies between 0 and 365.
\<close>

theorem current_streak_at_most_365: "calculate_streak es clk = Inr (c, l) \<Longrightarrow> 0 \<le> c \<and> c \<le> 365"
proof (cases "es = []")
  case True
  assume "calculate_streak es clk = Inr (c, l)"
  with True show ?thesis by (simp add: calculate_streak_def)
next
  case False
  assume r: "calculate_streak es clk = Inr (c, l)"
  have p: "list_all parses es" using r by (rule calculate_streak_Inr_parses)
  from r obtain ds sd where "current_scan 365 ds sd clk 1 (clk 0) 0 = Inr c"
    unfolding calculate_streak_parsed [OF p False] by (auto split: sum.splits)
  from current_scan_bound [OF this] show ?thesis by simp
qed

text \<open>
  At the 366 days of 2024 with the clock at 2024-12-31: the history goes one day
  further back than the scan, and the current streak is 365.
\<close>

theorem current_streak_at_most_365_witness:
  "calculate_streak year_2024 (\<lambda>_. ymd2ord 2024 12 31) = Inr (365, 366)
   \<and> (0::int) \<le> 365 \<and> (365::int) \<le> 365"
  using current_streak_at_most_365 [OF year_2024_streaks] year_2024_streaks by simp

subsection \<open>Errors\<close>

text \<open>
  Claim C9, as amended. The function returns a result exactly when the date of every
  entry parses. Otherwise it lets the exception of the parse escape: the error is the
  one that the date of some entry raises, a ValueError of \<^verbatim>\<open>strptime\<close> or an IndexError
  of the index 0 after \<^verbatim>\<open>split\<close>. There is no error of its own for a bad date.
\<close>

theorem calculate_streak_errors:
  "((\<exists>c l. calculate_streak es clk = Inr (c, l)) \<longleftrightarrow> (\<forall>e\<in>set es. \<exists>d. entry_date e = Inr d))
   \<and> (\<forall>err. calculate_streak es clk = Inl err \<longrightarrow>
         (\<exists>e\<in>set es. entry_date e = Inl err) \<and> (err = ValueError \<or> err = IndexError))"
proof -
  have all: "list_all parses es \<longleftrightarrow> (\<forall>e\<in>set es. \<exists>d. entry_date e = Inr d)"
    by (simp add: list_all_iff parses_iff)
  have 1: "(\<exists>c l. calculate_streak es clk = Inr (c, l)) \<longleftrightarrow> list_all parses es"
    using calculate_streak_returns [of es clk] by (auto dest: calculate_streak_Inr_parses)
  have 2: "(\<exists>e\<in>set es. entry_date e = Inl err) \<and> (err = ValueError \<or> err = IndexError)"
    if e: "calculate_streak es clk = Inl err" for err
  proof -
    have np: "\<not> list_all parses es"
      using calculate_streak_returns [of es clk] e by auto
    have ne: "es \<noteq> []" using np by auto
    obtain err' where b: "build_status es Map.empty {} = Inl err'"
      using np build_status_parses [of es Map.empty "{}"]
      by (cases "build_status es Map.empty {}") auto
    then have "err' = err" using e ne by (simp add: calculate_streak_def)
    with b have "\<exists>e\<in>set es. entry_date e = Inl err" by (auto dest: build_status_error)
    then show ?thesis by (auto dest: entry_date_error)
  qed
  show ?thesis using 1 2 unfolding all by blast
qed

text \<open>At one entry with a good date, and at one with the date 2025-02-30.\<close>

theorem calculate_streak_errors_witness:
  "(\<exists>c l. calculate_streak [\<lparr>date = ''2025-01-03'', success = 1\<rparr>] (\<lambda>_. ymd2ord 2025 1 4) = Inr (c, l))
   \<and> \<not> (\<exists>c l. calculate_streak [\<lparr>date = ''2025-02-30'', success = 1\<rparr>] (\<lambda>_. ymd2ord 2025 1 4)
              = Inr (c, l))"
proof -
  have a: "entry_date \<lparr>date = ''2025-01-03'', success = 1\<rparr> = Inr (ymd2ord 2025 1 3)"
    by (simp add: parse_defs)
  have b: "entry_date \<lparr>date = ''2025-02-30'', success = 1\<rparr> = Inl ValueError"
    by (simp add: parse_defs)
  from calculate_streak_errors [of "[\<lparr>date = ''2025-01-03'', success = 1\<rparr>]" "\<lambda>_. ymd2ord 2025 1 4"]
    calculate_streak_errors [of "[\<lparr>date = ''2025-02-30'', success = 1\<rparr>]" "\<lambda>_. ymd2ord 2025 1 4"] a b
  show ?thesis by simp
qed

text \<open>
  The claim as stated fails: a date that is no calendar date raises ValueError and an
  all-blank date raises IndexError, two errors of the Python library, none of them
  an error \<^verbatim>\<open>InvalidEntryDate\<close>.
\<close>

theorem unparseable_date_errors:
  "calculate_streak [\<lparr>date = ''2025-02-30'', success = 1\<rparr>] (\<lambda>_. ymd2ord 2025 1 4) = Inl ValueError
   \<and> calculate_streak [\<lparr>date = '' '', success = 1\<rparr>] (\<lambda>_. ymd2ord 2025 1 4) = Inl IndexError"
  by code_simp

subsection \<open>Current and longest streak\<close>

text \<open>
  Claim C10. When no read of the clock returns a date before the one of the first
  read (so in particular when every read returns the same day, today) and the function
  returns, the current streak is at most the longest streak.
\<close>

theorem current_le_longest:
  "(\<forall>k. clk 0 \<le> clk k) \<Longrightarrow> calculate_streak es clk = Inr (c, l) \<Longrightarrow> c \<le> l"
proof (cases "es = []")
  case True
  assume "calculate_streak es clk = Inr (c, l)"
  with True show ?thesis by (simp add: calculate_streak_def)
next
  case False
  let ?sd = "sorted_list_of_set (entry_dates es)"
  let ?s = "longest_pass ?sd (pass_init (failures es))"
  assume clk: "\<forall>k. clk 0 \<le> clk k"
  assume r: "calculate_streak es clk = Inr (c, l)"
  have p: "list_all parses es" using r by (rule calculate_streak_Inr_parses)
  from r have sc: "current_scan (Suc 364) (day_status ?s) ?sd clk 1 (clk 0) 0 = Inr c"
    and l: "l = longest_streak ?s"
    unfolding calculate_streak_parsed [OF p False] by (auto split: sum.splits)
  have srt: "sorted ?sd" "distinct ?sd" by simp_all
  note inv = longest_pass_inv [OF srt, of "failures es"]
  have l0: "0 \<le> l" using inv l by linarith
  have c0: "0 \<le> c" using current_scan_bound [OF sc] by simp
  from current_scan_first [OF clk sc]
  show ?thesis
  proof
    assume "c = 0" then show ?thesis using l0 by simp
  next
    assume "\<exists>b. \<forall>d. b - c < d \<and> d \<le> b \<longrightarrow> day_status ?s d = Some True"
    then obtain b where h: "\<forall>d. b - c < d \<and> d \<le> b \<longrightarrow> day_status ?s d = Some True" ..
    show ?thesis
    proof (cases "c = 0")
      case True then show ?thesis using l0 by simp
    next
      case False
      then have ab: "b - c + 1 \<le> b" using c0 by simp
      have "b - (b - c + 1) + 1 \<le> longest_streak ?s"
      proof (rule inv [THEN conjunct2, THEN conjunct2, THEN conjunct2, THEN conjunct2,
            THEN conjunct2, rule_format], intro conjI allI impI)
        show "b - c + 1 \<le> b" by (rule ab)
      next
        fix d assume d: "b - c + 1 \<le> d \<and> d \<le> b"
        then have "day_status ?s d = Some True" using h by simp
        then have *: "d \<in> set ?sd \<and> status_of (failures es) d"
          by (simp add: longest_pass_day_status split: if_splits)
        show "d \<in> set ?sd" using * by simp
        show "status_of (failures es) d" using * by simp
      qed
      then show ?thesis using l by simp
    qed
  qed
qed

text \<open>At successes on 2025-01-01, 2025-01-02 and 2025-01-04 with today 2025-01-04.\<close>

theorem current_le_longest_witness:
  "calculate_streak
     [\<lparr>date = ''2025-01-01'', success = 1\<rparr>, \<lparr>date = ''2025-01-02'', success = 1\<rparr>,
      \<lparr>date = ''2025-01-04'', success = 1\<rparr>]
     (\<lambda>_. ymd2ord 2025 1 4) = Inr (1, 2) \<and> (1::int) \<le> 2"
proof -
  have h: "calculate_streak
     [\<lparr>date = ''2025-01-01'', success = 1\<rparr>, \<lparr>date = ''2025-01-02'', success = 1\<rparr>,
      \<lparr>date = ''2025-01-04'', success = 1\<rparr>]
     (\<lambda>_. ymd2ord 2025 1 4) = Inr (1, 2)"
    by code_simp
  from current_le_longest [OF _ h] h show ?thesis by simp
qed

text \<open>
  The condition on the clock is needed: with successes on 2025-01-07 and 2025-01-09
  and a clock that shows 2025-01-10 at its first read and 2025-01-01 afterwards, the
  scan passes over the two days without an entry and counts both successes.
\<close>

lemma current_above_longest_backward_clock:
  "calculate_streak
     [\<lparr>date = ''2025-01-07'', success = 1\<rparr>, \<lparr>date = ''2025-01-09'', success = 1\<rparr>]
     (\<lambda>k. if k = 0 then ymd2ord 2025 1 10 else ymd2ord 2025 1 1) = Inr (2, 1)"
  by code_simp

end
